theory Spec2Isabelle
  imports Complex_Main
begin

section \<open>Python values and exceptions\<close>

text \<open>
  The engine of \<^verbatim>\<open>erlang_channels_web.py\<close> is the class \<^verbatim>\<open>ErlangCalculator\<close>: three static
  methods on Python ints and floats. The channel count \<open>N\<close> is a Python int (\<open>int\<close>). The
  traffic \<open>A\<close> and the probability \<open>Pr\<close> are Python floats: the request handlers build them
  with \<^verbatim>\<open>float(...)\<close>, and the traffic inversion starts from the float literals \<^verbatim>\<open>0.0\<close> and
  \<^verbatim>\<open>1.0\<close>.

  A finite float is modelled by the real number it denotes. In the definitions of the
  first sections rounding is left out: every operation returns the exact real result.
  The order of two results of \<open>erlang_b\<close> can depend on the rounding, so a later section
  defines \<open>erlang_b\<close> once more with every float operation rounded, and bounds the
  distance between the two. What is modelled throughout is where Python leaves
  the finite floats: a power or an int-to-float conversion whose result is too large for a
  double raises \<^verbatim>\<open>OverflowError\<close>, a division by zero raises \<^verbatim>\<open>ZeroDivisionError\<close>, and
  \<^verbatim>\<open>math.factorial\<close> of a negative int raises \<^verbatim>\<open>ValueError\<close>. Exceptions are values of
  the sum type \<open>py_error + 'a\<close>.

  Outside the model: infinities and NaN as arguments. Additions, multiplications and
  divisions of floats never raise on overflow in Python; on the arguments considered here
  their exact results stay in range.
\<close>

datatype py_error = OverflowError | ValueError | ZeroDivisionError

text \<open>
  A real is too large for a double when rounding it to nearest gives infinity, that is
  from \<open>2^1024 - 2^970\<close> on (the largest double is \<open>2^1024 - 2^971\<close>).
\<close>

definition float_overflow :: "real \<Rightarrow> bool" where
  "float_overflow x \<longleftrightarrow> 2 ^ 1024 - 2 ^ 970 \<le> \<bar>x\<bar>"

text \<open>\<^verbatim>\<open>float(n)\<close> for an int \<open>n\<close>, as the float operators apply it to an int operand.\<close>

definition int_to_float :: "int \<Rightarrow> py_error + real" where
  "int_to_float n =
     (if float_overflow (real_of_int n) then Inl OverflowError else Inr (real_of_int n))"

text \<open>
  \<^verbatim>\<open>x ** n\<close> for a float \<open>x\<close> and an int \<open>n\<close>: the exponent is converted to a float, zero to
  a negative power raises \<^verbatim>\<open>ZeroDivisionError\<close>, and a result out of range raises
  \<^verbatim>\<open>OverflowError\<close>.
\<close>

definition float_pow :: "real \<Rightarrow> int \<Rightarrow> py_error + real" where
  "float_pow x n =
     (case int_to_float n of
        Inl e \<Rightarrow> Inl e
      | Inr _ \<Rightarrow>
          if n < 0 \<and> x = 0 then Inl ZeroDivisionError
          else if float_overflow (x powi n) then Inl OverflowError
          else Inr (x powi n))"

text \<open>\<^verbatim>\<open>math.factorial(n)\<close>: an exact int, \<^verbatim>\<open>ValueError\<close> for a negative argument.\<close>

definition math_factorial :: "int \<Rightarrow> py_error + int" where
  "math_factorial n = (if n < 0 then Inl ValueError else Inr (fact (nat n)))"

text \<open>\<^verbatim>\<open>x / y\<close> for two floats.\<close>

definition float_truediv :: "real \<Rightarrow> real \<Rightarrow> py_error + real" where
  "float_truediv x y = (if y = 0 then Inl ZeroDivisionError else Inr (x / y))"

text \<open>\<^verbatim>\<open>x / n\<close> for a float \<open>x\<close> and an int \<open>n\<close>: the int is converted first.\<close>

definition float_truediv_int :: "real \<Rightarrow> int \<Rightarrow> py_error + real" where
  "float_truediv_int x n =
     (case int_to_float n of Inl e \<Rightarrow> Inl e | Inr y \<Rightarrow> float_truediv x y)"

section \<open>\<^verbatim>\<open>ErlangCalculator.erlang_b\<close>\<close>

text \<open>
  The expression \<^verbatim>\<open>(A ** k) / math.factorial(k)\<close>, which the source evaluates for the
  numerator (\<open>k = N\<close>) and for every term of the denominator: the power, then the
  factorial, then the division.
\<close>

definition erlang_term :: "real \<Rightarrow> int \<Rightarrow> py_error + real" where
  "erlang_term A k =
     (case float_pow A k of
        Inl e \<Rightarrow> Inl e
      | Inr p \<Rightarrow>
          (case math_factorial k of
             Inl e \<Rightarrow> Inl e
           | Inr f \<Rightarrow> float_truediv_int p f))"

text \<open>
  \<^verbatim>\<open>sum(... for k in ks)\<close>: the generator is consumed from left to right, the accumulator
  starts at 0, and the first exception ends the sum.
\<close>

fun sum_terms :: "real \<Rightarrow> int list \<Rightarrow> real \<Rightarrow> py_error + real" where
  "sum_terms A [] acc = Inr acc"
| "sum_terms A (k # ks) acc =
     (case erlang_term A k of
        Inl e \<Rightarrow> Inl e
      | Inr t \<Rightarrow> sum_terms A ks (acc + t))"

text \<open>The body of the \<^verbatim>\<open>try\<close> block; \<^verbatim>\<open>range(N + 1)\<close> is the list \<open>[0..N]\<close>.\<close>

definition erlang_b_try :: "int \<Rightarrow> real \<Rightarrow> py_error + real" where
  "erlang_b_try N A =
     (case erlang_term A N of
        Inl e \<Rightarrow> Inl e
      | Inr numerator \<Rightarrow>
          (case sum_terms A [0..N] 0 of
             Inl e \<Rightarrow> Inl e
           | Inr denominator \<Rightarrow> float_truediv numerator denominator))"

text \<open>
  \<^verbatim>\<open>except (OverflowError, ValueError): return 1.0\<close>. A \<^verbatim>\<open>ZeroDivisionError\<close> is not
  caught and leaves the function.
\<close>

definition erlang_b :: "int \<Rightarrow> real \<Rightarrow> py_error + real" where
  "erlang_b N A =
     (if N = 0 then Inr (if A > 0 then 1 else 0)
      else
        (case erlang_b_try N A of
           Inl OverflowError \<Rightarrow> Inr 1
         | Inl ValueError \<Rightarrow> Inr 1
         | Inl ZeroDivisionError \<Rightarrow> Inl ZeroDivisionError
         | Inr p \<Rightarrow> Inr p))"

section \<open>\<^verbatim>\<open>ErlangCalculator.erlang_b_inverse\<close>\<close>

text \<open>
  The \<^verbatim>\<open>for N in range(1, max_channels + 1)\<close> loop, entered at \<open>N\<close>: it returns the first
  \<open>N\<close> whose loss probability is at most \<open>Pr\<close>, and \<open>max_channels\<close> when the range is
  exhausted.
\<close>

function erlang_b_inverse_loop :: "int \<Rightarrow> int \<Rightarrow> real \<Rightarrow> real \<Rightarrow> py_error + int" where
  "erlang_b_inverse_loop N max_channels A Pr =
     (if N \<le> max_channels then
        (case erlang_b N A of
           Inl e \<Rightarrow> Inl e
         | Inr p \<Rightarrow>
             if p \<le> Pr then Inr N
             else erlang_b_inverse_loop (N + 1) max_channels A Pr)
      else Inr max_channels)"
  by pat_completeness auto
termination
  by (relation "measure (\<lambda>(N, max_channels, A, Pr). nat (max_channels + 1 - N))") auto

declare erlang_b_inverse_loop.simps [simp del]

definition erlang_b_inverse :: "real \<Rightarrow> real \<Rightarrow> int \<Rightarrow> py_error + int" where
  "erlang_b_inverse A Pr max_channels =
     (if A \<le> 0 then Inr 0
      else if Pr \<ge> 1 then Inr 1
      else erlang_b_inverse_loop 1 max_channels A Pr)"

text \<open>The call with the default \<^verbatim>\<open>max_channels=1000\<close>.\<close>

definition MinimumServers :: "real \<Rightarrow> real \<Rightarrow> py_error + int" where
  "MinimumServers A Pr = erlang_b_inverse A Pr 1000"

section \<open>\<^verbatim>\<open>ErlangCalculator.erlang_a_from_pr\<close>\<close>

text \<open>
  The result is a float that may be \<^verbatim>\<open>float('inf')\<close>, the only place where the source
  produces an infinity.
\<close>

datatype py_float = Finite real | Infinity

text \<open>
  The bracketing loop \<^verbatim>\<open>while erlang_b(N, high) < Pr and high < max_A: high *= 2.0\<close>,
  entered at \<open>high\<close>. It returns the final \<open>high\<close>, or the exception of \<^verbatim>\<open>erlang_b\<close>.
  Entered at \<open>high \<le> 0\<close> the loop can run forever, so the model is a partial function:
  \<open>None\<close> is a loop that does not end.
\<close>

partial_function (option) bracket_loop ::
    "int \<Rightarrow> real \<Rightarrow> real \<Rightarrow> real \<Rightarrow> (py_error + real) option" where
  "bracket_loop N Pr max_A high =
     (case erlang_b N high of
        Inl e \<Rightarrow> Some (Inl e)
      | Inr p \<Rightarrow>
          if p < Pr \<and> high < max_A then bracket_loop N Pr max_A (high * 2)
          else Some (Inr high))"

text \<open>
  The bisection \<^verbatim>\<open>for _ in range(max_iter)\<close> with \<open>n\<close> iterations left, and the
  \<^verbatim>\<open>return (low + high) / 2.0\<close> after it.
\<close>

fun bisect :: "nat \<Rightarrow> int \<Rightarrow> real \<Rightarrow> real \<Rightarrow> real \<Rightarrow> real \<Rightarrow> py_error + real" where
  "bisect 0 N Pr tol low high = Inr ((low + high) / 2)"
| "bisect (Suc n) N Pr tol low high =
     (let mid = (low + high) / 2 in
        (case erlang_b N mid of
           Inl e \<Rightarrow> Inl e
         | Inr val \<Rightarrow>
             if \<bar>val - Pr\<bar> \<le> tol then Inr mid
             else if val < Pr then bisect n N Pr tol mid high
             else bisect n N Pr tol low mid))"

text \<open>
  The \<^verbatim>\<open>try\<close> around the bracketing loop catches every exception and returns \<open>max_A\<close>;
  the calls of \<^verbatim>\<open>erlang_b\<close> after it are not protected.
\<close>

definition erlang_a_from_pr ::
    "int \<Rightarrow> real \<Rightarrow> real \<Rightarrow> int \<Rightarrow> real \<Rightarrow> (py_error + py_float) option" where
  "erlang_a_from_pr N Pr tol max_iter max_A =
     (if N \<le> 0 then Some (Inl ValueError)
      else if Pr \<le> 0 then Some (Inr (Finite 0))
      else if Pr \<ge> 1 then Some (Inr Infinity)
      else
        (case bracket_loop N Pr max_A 1 of
           None \<Rightarrow> None
         | Some (Inl e) \<Rightarrow> Some (Inr (Finite max_A))
         | Some (Inr high) \<Rightarrow>
             (case erlang_b N high of
                Inl e \<Rightarrow> Some (Inl e)
              | Inr p \<Rightarrow>
                  if p < Pr then Some (Inr (Finite max_A))
                  else
                    (case bisect (nat max_iter) N Pr tol 0 high of
                       Inl e \<Rightarrow> Some (Inl e)
                     | Inr a \<Rightarrow> Some (Inr (Finite a))))))"

text \<open>The call with the defaults \<^verbatim>\<open>tol=1e-9, max_iter=100, max_A=1e6\<close>.\<close>

definition OfferedTraffic :: "int \<Rightarrow> real \<Rightarrow> (py_error + py_float) option" where
  "OfferedTraffic N Pr = erlang_a_from_pr N Pr (1 / 10 ^ 9) 100 (10 ^ 6)"

section \<open>The Erlang B formula of the specification\<close>

text \<open>
  The closed form as the specification writes it,
  \<open>Pr = (A^N / N!) / \<Sum>_{k=0..N} (A^k / k!)\<close>, over the reals. It is the reference the
  source function is compared with, not a translation of the source.
\<close>

definition erlang_closed :: "nat \<Rightarrow> real \<Rightarrow> real" where
  "erlang_closed N A = (A ^ N / fact N) / (\<Sum>k = 0..N. A ^ k / fact k)"

text \<open>The denominator of the closed form.\<close>

definition erlang_sum :: "nat \<Rightarrow> real \<Rightarrow> real" where
  "erlang_sum N A = (\<Sum>k = 0..N. A ^ k / fact k)"

text \<open>
  The direct evaluation of the term \<open>k\<close> overflows when the power \<open>A^k\<close> or the
  conversion of \<open>k!\<close> to a float does.
\<close>

definition term_overflow :: "real \<Rightarrow> nat \<Rightarrow> bool" where
  "term_overflow A k \<longleftrightarrow> float_overflow (A ^ k) \<or> float_overflow (fact k)"

text \<open>
  The value that \<open>erlang_b\<close> turns out to return for \<open>N \<ge> 0\<close> and \<open>A \<ge> 0\<close>
  (lemma \<open>erlang_b_blocking\<close> below): the degenerate case, the sentinel 1 on overflow,
  the closed form otherwise.
\<close>

definition blocking :: "int \<Rightarrow> real \<Rightarrow> real" where
  "blocking N A =
     (if N = 0 then (if A > 0 then 1 else 0)
      else if term_overflow A (nat N) then 1
      else erlang_closed (nat N) A)"

text \<open>
  The test \<^verbatim>\<open>erlang_b(N, A) <= Pr\<close> of the scan in \<open>erlang_b_inverse\<close>, as a predicate;
  a call that raises meets no target.
\<close>

definition meets_target :: "int \<Rightarrow> real \<Rightarrow> real \<Rightarrow> bool" where
  "meets_target N A Pr = (case erlang_b N A of Inl e \<Rightarrow> False | Inr p \<Rightarrow> p \<le> Pr)"

section \<open>\<^verbatim>\<open>erlang_b\<close> with rounded float operations\<close>

text \<open>
  The same function once more, with the rounding of the float operations made
  explicit. A double carries 53 significant bits: the result of a float operation is
  the exact result up to a relative error, plus an absolute error where the result is
  so small that it is subnormal. \<open>unit_roundoff\<close> is one unit in the last place,
  relative to the value: the additions, the divisions and the int-to-float conversions
  round to nearest and stay within half of it, the power of the C library within one.
  \<open>underflow_unit\<close> is the spacing of the subnormal doubles.
\<close>

definition unit_roundoff :: real where
  "unit_roundoff = 1 / 2 ^ 52"

definition underflow_unit :: real where
  "underflow_unit = 1 / 2 ^ 1074"










text \<open>
  For the error analysis: after \<open>m\<close> roundings and with \<open>a\<close> possible underflows, a
  computed value \<open>xh\<close> lies around the exact value \<open>x\<close> as \<open>enclosed m a x xh\<close> says,
  where \<open>shrink\<close> is the factor that one rounding can lose.
\<close>

definition shrink :: real where
  "shrink = 1 - unit_roundoff - underflow_unit"

definition enclosed :: "nat \<Rightarrow> nat \<Rightarrow> real \<Rightarrow> real \<Rightarrow> bool" where
  "enclosed m a x xh \<longleftrightarrow>
     0 \<le> xh \<and> x * shrink ^ m - real a * underflow_unit \<le> xh \<and>
     xh * shrink ^ m \<le> x + real a * underflow_unit"

section \<open>What \<open>erlang_b\<close> computes\<close>

lemma float_overflow_mono: "float_overflow x \<Longrightarrow> \<bar>x\<bar> \<le> \<bar>y\<bar> \<Longrightarrow> float_overflow y"
  by (simp add: float_overflow_def)

lemma float_overflow_ge_1: "float_overflow x \<Longrightarrow> 1 < \<bar>x\<bar>"
proof -
  assume "float_overflow x"
  then have "(2::real) ^ 1024 - 2 ^ 970 \<le> \<bar>x\<bar>" by (simp add: float_overflow_def)
  moreover have "(1::real) < 2 ^ 1024 - 2 ^ 970" by simp
  ultimately show ?thesis by linarith
qed

lemma le_fact_real: "real k \<le> fact k"
  by (metis fact_ge_self of_nat_fact of_nat_le_iff)

lemma erlang_term_nonneg:
  "erlang_term A (int k) =
     (if term_overflow A k then Inl OverflowError else Inr (A ^ k / fact k))"
proof -
  have k: "float_overflow (real k) \<Longrightarrow> float_overflow (fact k)"
    by (rule float_overflow_mono [where x = "real k"]) (simp_all add: le_fact_real)
  have f: "(fact k :: real) \<noteq> 0" by simp
  show ?thesis
    using k
    by (auto simp: erlang_term_def float_pow_def int_to_float_def math_factorial_def
        float_truediv_int_def float_truediv_def term_overflow_def)
qed


lemma erlang_term_int:
  "0 \<le> k \<Longrightarrow> erlang_term A k =
     (if term_overflow A (nat k) then Inl OverflowError else Inr (A ^ nat k / fact (nat k)))"
  using erlang_term_nonneg [of A "nat k"] by simp

lemma sum_terms_list:
  "\<forall>k\<in>set ks. 0 \<le> k \<Longrightarrow>
   sum_terms A ks acc =
     (if \<exists>k\<in>set ks. term_overflow A (nat k) then Inl OverflowError
      else Inr (acc + (\<Sum>k\<leftarrow>ks. A ^ nat k / fact (nat k))))"
proof (induction ks arbitrary: acc)
  case Nil
  show ?case by simp
next
  case (Cons k ks)
  then have k: "0 \<le> k" and ks: "\<forall>k\<in>set ks. 0 \<le> k" by simp_all
  show ?case
    by (simp add: erlang_term_int [OF k] Cons.IH [OF ks] add.assoc)
qed

lemma sum_list_upto_nat:
  "0 \<le> N \<Longrightarrow> (\<Sum>k\<leftarrow>[0..N]. f (nat k)) = (\<Sum>k = 0..nat N. f k :: real)"
proof -
  assume N: "0 \<le> N"
  have "(\<Sum>k\<leftarrow>[0..N]. f (nat k)) = (\<Sum>k\<in>{0..N}. f (nat k))"
    by (simp add: sum_list_distinct_conv_sum_set)
  also have "\<dots> = (\<Sum>k\<in>int ` {0..nat N}. f (nat k))"
  proof -
    have "{0..N} = int ` {0..nat N}"
    proof (intro set_eqI iffI)
      fix x assume "x \<in> {0..N}"
      then have "x = int (nat x)" "nat x \<in> {0..nat N}" by auto
      then show "x \<in> int ` {0..nat N}" by (rule image_eqI)
    next
      fix x assume "x \<in> int ` {0..nat N}"
      then show "x \<in> {0..N}" using N by auto
    qed
    then show ?thesis by simp
  qed
  also have "\<dots> = (\<Sum>k = 0..nat N. f k)"
    by (simp add: sum.reindex)
  finally show ?thesis .
qed

lemma sum_terms_range:
  "0 \<le> N \<Longrightarrow>
   sum_terms A [0..N] 0 =
     (if \<exists>k\<le>nat N. term_overflow A k then Inl OverflowError
      else Inr (\<Sum>k = 0..nat N. A ^ k / fact k))"
proof -
  assume N: "0 \<le> N"
  have ex: "(\<exists>k\<in>set [0..N]. term_overflow A (nat k)) \<longleftrightarrow> (\<exists>k\<le>nat N. term_overflow A k)"
  proof
    assume "\<exists>k\<in>set [0..N]. term_overflow A (nat k)"
    then obtain k where "0 \<le> k" "k \<le> N" "term_overflow A (nat k)" by auto
    then show "\<exists>k\<le>nat N. term_overflow A k" by (intro exI [of _ "nat k"]) simp
  next
    assume "\<exists>k\<le>nat N. term_overflow A k"
    then obtain k where "k \<le> nat N" "term_overflow A k" by auto
    then show "\<exists>k\<in>set [0..N]. term_overflow A (nat k)"
      using N by (intro bexI [of _ "int k"]) auto
  qed
  have "sum_terms A [0..N] 0 =
      (if \<exists>k\<in>set [0..N]. term_overflow A (nat k) then Inl OverflowError
       else Inr (0 + (\<Sum>k\<leftarrow>[0..N]. A ^ nat k / fact (nat k))))"
    by (rule sum_terms_list) simp
  then show ?thesis
    unfolding ex sum_list_upto_nat [OF N, of "\<lambda>k. A ^ k / fact k"] by simp
qed


lemma term_overflow_le:
  assumes "k \<le> N" and "term_overflow A k"
  shows "term_overflow A N"
proof -
  from assms(2) consider "float_overflow (A ^ k)" | "float_overflow (fact k)"
    by (auto simp: term_overflow_def)
  then show ?thesis
  proof cases
    case 1
    then have "1 < \<bar>A ^ k\<bar>" by (rule float_overflow_ge_1)
    then have big: "1 < \<bar>A\<bar> ^ k" by (simp add: power_abs)
    have "1 \<le> \<bar>A\<bar>"
    proof (rule ccontr)
      assume "\<not> 1 \<le> \<bar>A\<bar>"
      then have "\<bar>A\<bar> ^ k \<le> 1" by (simp add: power_le_one)
      with big show False by simp
    qed
    then have "\<bar>A\<bar> ^ k \<le> \<bar>A\<bar> ^ N" using assms(1) by (rule power_increasing [rotated])
    then have "\<bar>A ^ k\<bar> \<le> \<bar>A ^ N\<bar>" by (simp add: power_abs)
    with 1 have "float_overflow (A ^ N)" by (rule float_overflow_mono)
    then show ?thesis by (simp add: term_overflow_def)
  next
    case 2
    have "(fact k :: real) \<le> fact N" using assms(1) by (simp add: fact_mono)
    then have "\<bar>fact k :: real\<bar> \<le> \<bar>fact N\<bar>" by simp
    with 2 have "float_overflow (fact N)" by (rule float_overflow_mono)
    then show ?thesis by (simp add: term_overflow_def)
  qed
qed

lemma erlang_sum_ge_1:
  assumes "0 \<le> (A::real)"
  shows "1 \<le> (\<Sum>k = 0..N. A ^ k / fact k)"
proof -
  have "(\<Sum>k = 0..N. A ^ k / fact k) = 1 + (\<Sum>k = Suc 0..N. A ^ k / fact k)"
    by (simp add: sum.atLeast_Suc_atMost)
  moreover have "0 \<le> (\<Sum>k = Suc 0..N. A ^ k / fact k)"
    using assms by (intro sum_nonneg) simp
  ultimately show ?thesis by simp
qed

lemma erlang_b_try_nonneg:
  assumes "0 \<le> N" and "0 \<le> A"
  shows "erlang_b_try N A =
     (if term_overflow A (nat N) then Inl OverflowError else Inr (erlang_closed (nat N) A))"
proof (cases "term_overflow A (nat N)")
  case True
  then show ?thesis by (simp add: erlang_b_try_def erlang_term_int [OF assms(1)])
next
  case False
  then have no: "\<not> (\<exists>k\<le>nat N. term_overflow A k)"
    using term_overflow_le by blast
  have "(\<Sum>k = 0..nat N. A ^ k / fact k) \<noteq> 0"
    using erlang_sum_ge_1 [OF assms(2), of "nat N"] by simp
  then show ?thesis
    using False no
    by (simp add: erlang_b_try_def erlang_term_int [OF assms(1)] sum_terms_range [OF assms(1)]
        float_truediv_def erlang_closed_def)
qed

lemma erlang_b_blocking:
  assumes "0 \<le> N" and "0 \<le> A"
  shows "erlang_b N A = Inr (blocking N A)"
  by (simp add: erlang_b_def blocking_def erlang_b_try_nonneg [OF assms])

section \<open>Bounds and monotonicity of the closed form\<close>

lemma erlang_closed_sum: "erlang_closed N A = (A ^ N / fact N) / erlang_sum N A"
  by (simp add: erlang_closed_def erlang_sum_def)

lemma erlang_sum_pos: "0 \<le> A \<Longrightarrow> 0 < erlang_sum N A"
  using erlang_sum_ge_1 [of A N] by (simp add: erlang_sum_def)

lemma erlang_sum_Suc: "erlang_sum (Suc N) A = erlang_sum N A + A ^ Suc N / fact (Suc N)"
  by (simp add: erlang_sum_def)

lemma frac_le_cross:
  fixes a b c d :: real
  assumes "0 < b" "0 < d" "a * d \<le> c * b"
  shows "a / b \<le> c / d"
  using assms by (simp add: field_simps)




lemma erlang_top_less_sum:
  assumes "0 \<le> A" "0 < N"
  shows "A ^ N / fact N < erlang_sum N A"
proof -
  obtain M where N: "N = Suc M" using assms(2) by (cases N) auto
  have "1 \<le> erlang_sum M A" using erlang_sum_ge_1 [OF assms(1)] by (simp add: erlang_sum_def)
  then show ?thesis unfolding N erlang_sum_Suc by linarith
qed

lemma erlang_closed_less_1:
  assumes "0 \<le> A" "0 < N"
  shows "erlang_closed N A < 1"
  unfolding erlang_closed_sum
  using erlang_top_less_sum [OF assms] erlang_sum_pos [OF assms(1), of N]
  by (subst divide_less_eq_1_pos) simp_all

lemma erlang_closed_le_1: "0 \<le> A \<Longrightarrow> erlang_closed N A \<le> 1"
  using erlang_closed_less_1 [of A N] by (cases "N = 0") (simp_all add: erlang_closed_def)







lemma erlang_sum_shift:
  "erlang_sum (Suc N) A = 1 + (\<Sum>k = 0..N. A ^ Suc k / fact (Suc k))"
proof -
  have "erlang_sum (Suc N) A = (\<Sum>k = 0..Suc N. A ^ k / fact k)"
    by (simp only: erlang_sum_def)
  also have "\<dots> = A ^ 0 / fact 0 + (\<Sum>k = 0..N. A ^ Suc k / fact (Suc k))"
    by (simp add: sum.atLeast0_atMost_Suc_shift del: sum.cl_ivl_Suc)
  finally show ?thesis by simp
qed

lemma traffic_times_sum_le:
  fixes A :: real
  assumes "0 \<le> A"
  shows "A * erlang_sum N A \<le> real (Suc N) * erlang_sum (Suc N) A"
proof -
  have "A * erlang_sum N A = (\<Sum>k = 0..N. A * (A ^ k / fact k))"
    by (simp add: erlang_sum_def sum_distrib_left)
  also have "\<dots> \<le> (\<Sum>k = 0..N. real (Suc N) * (A ^ Suc k / fact (Suc k)))"
  proof (rule sum_mono)
    fix k assume "k \<in> {0..N}"
    then have kN: "real (Suc k) \<le> real (Suc N)" by simp
    have "real (Suc k) * (A ^ Suc k / fact (Suc k))
        = (real (Suc k) * (A * A ^ k)) / (real (Suc k) * fact k)"
      by (simp del: of_nat_Suc)
    also have "\<dots> = (A * A ^ k) / fact k"
      by (rule nonzero_mult_divide_mult_cancel_left) simp
    finally have "A * (A ^ k / fact k) = real (Suc k) * (A ^ Suc k / fact (Suc k))"
      by simp
    also have "\<dots> \<le> real (Suc N) * (A ^ Suc k / fact (Suc k))"
      using kN assms by (intro mult_right_mono) simp_all
    finally show "A * (A ^ k / fact k) \<le> real (Suc N) * (A ^ Suc k / fact (Suc k))" .
  qed
  also have "\<dots> = real (Suc N) * (\<Sum>k = 0..N. A ^ Suc k / fact (Suc k))"
    by (simp add: sum_distrib_left)
  also have "\<dots> \<le> real (Suc N) * erlang_sum (Suc N) A"
    unfolding erlang_sum_shift by (intro mult_left_mono) simp_all
  finally show ?thesis .
qed

lemma erlang_closed_Suc_le:
  fixes A :: real
  assumes "0 \<le> A"
  shows "erlang_closed (Suc N) A \<le> erlang_closed N A"
proof -
  have top: "A ^ Suc N / fact (Suc N) = (A ^ N / fact N) * (A / real (Suc N))"
    by (simp add: field_simps)
  have "(A / real (Suc N)) * erlang_sum N A \<le> erlang_sum (Suc N) A"
  proof -
    have "(A / real (Suc N)) * erlang_sum N A = (A * erlang_sum N A) / real (Suc N)"
      by simp
    also have "\<dots> \<le> (real (Suc N) * erlang_sum (Suc N) A) / real (Suc N)"
      using traffic_times_sum_le [OF assms, of N] by (intro divide_right_mono) simp_all
    also have "\<dots> = erlang_sum (Suc N) A" by simp
    finally show ?thesis .
  qed
  then have "(A ^ N / fact N) * ((A / real (Suc N)) * erlang_sum N A)
      \<le> (A ^ N / fact N) * erlang_sum (Suc N) A"
    using assms by (intro mult_left_mono) simp_all
  then have "(A ^ Suc N / fact (Suc N)) * erlang_sum N A \<le> (A ^ N / fact N) * erlang_sum (Suc N) A"
    unfolding top by (simp add: mult.assoc)
  then show ?thesis
    unfolding erlang_closed_sum
    using assms by (intro frac_le_cross erlang_sum_pos) simp_all
qed

lemma erlang_closed_antimono:
  fixes A :: real
  assumes "0 \<le> A" "N \<le> M"
  shows "erlang_closed M A \<le> erlang_closed N A"
  using assms(2)
proof (induction M)
  case 0
  then show ?case by simp
next
  case (Suc M)
  show ?case
  proof (cases "N = Suc M")
    case True
    then show ?thesis by simp
  next
    case False
    with Suc.prems have "N \<le> M" by simp
    then have "erlang_closed M A \<le> erlang_closed N A" by (rule Suc.IH)
    with erlang_closed_Suc_le [OF assms(1), of M] show ?thesis by linarith
  qed
qed

section \<open>The value returned by \<open>erlang_b\<close>\<close>



lemma blocking_le_1: "0 \<le> A \<Longrightarrow> blocking N A \<le> 1"
  by (simp add: blocking_def erlang_closed_le_1)



lemma blocking_antimono:
  assumes "0 < A" "0 \<le> N" "N \<le> M" "\<not> term_overflow A (nat M)"
  shows "blocking M A \<le> blocking N A"
proof (cases "N = 0")
  case True
  then show ?thesis using assms(1) blocking_le_1 [of A M] by (simp add: blocking_def)
next
  case False
  then have M: "M \<noteq> 0" using assms(2,3) by simp
  have "nat N \<le> nat M" using assms(3) by simp
  then have "\<not> term_overflow A (nat N)" using term_overflow_le assms(4) by blast
  then show ?thesis
    using False M assms(4) erlang_closed_antimono [of A "nat N" "nat M"] assms(1,3)
    by (simp add: blocking_def)
qed

lemma blocking_less_1:
  assumes "0 \<le> A" "1 \<le> N" "\<not> term_overflow A (nat N)"
  shows "blocking N A < 1"
  using assms erlang_closed_less_1 [of A "nat N"] by (simp add: blocking_def)

lemma erlang_b_try_overflow_iff:
  assumes "0 \<le> N" "0 \<le> A"
  shows "erlang_b_try N A = Inl OverflowError \<longleftrightarrow> term_overflow A (nat N)"
  by (simp add: erlang_b_try_nonneg [OF assms])

lemma meets_target_blocking:
  "0 \<le> N \<Longrightarrow> 0 \<le> A \<Longrightarrow> meets_target N A Pr \<longleftrightarrow> blocking N A \<le> Pr"
  by (simp add: meets_target_def erlang_b_blocking)

section \<open>Evaluation at concrete inputs\<close>

lemma sum_upto_numeral:
  "(\<Sum>k = 0..numeral n. f k) = (\<Sum>k = 0..pred_numeral n. f k) + (f (numeral n) :: real)"
  by (simp add: numeral_eq_Suc)

lemma closed_10_5: "1 / 100 < erlang_closed 10 5"
  by (simp add: erlang_closed_def sum_upto_numeral fact_numeral)

lemma closed_11_5: "erlang_closed 11 5 \<le> 1 / 100"
  by (simp add: erlang_closed_def sum_upto_numeral fact_numeral)


lemma fact_171: "float_overflow (fact 171)"
  by (simp add: float_overflow_def fact_numeral)


lemma overflow_5_171: "term_overflow 5 171"
  using fact_171 by (simp add: term_overflow_def)

lemma no_overflow_3_2: "\<not> term_overflow 3 2"
  by (simp add: term_overflow_def float_overflow_def fact_numeral)


lemma no_overflow_5_11: "\<not> term_overflow 5 11"
  by (simp add: term_overflow_def float_overflow_def fact_numeral)

lemma blocking_5_above:
  assumes "1 \<le> n" "n \<le> 10"
  shows "1 / 100 < blocking n 5"
proof -
  have no: "\<not> term_overflow 5 (nat 10)"
    using term_overflow_le [of 10 11 5] no_overflow_5_11 by auto
  have "blocking 10 5 \<le> blocking n 5"
    using assms no by (intro blocking_antimono) simp_all
  moreover have "blocking 10 5 = erlang_closed 10 5" using no by (simp add: blocking_def)
  ultimately show ?thesis using closed_10_5 by simp
qed

lemma blocking_5_11: "blocking 11 5 \<le> 1 / 100"
  using no_overflow_5_11 closed_11_5 by (simp add: blocking_def)

lemma no_overflow_1_1: "\<not> term_overflow 1 1"
  by (simp add: term_overflow_def float_overflow_def)

lemma blocking_1_1: "blocking 1 1 = 1 / 2"
  using no_overflow_1_1 by (simp add: blocking_def erlang_closed_def)

section \<open>The scan of \<open>erlang_b_inverse\<close>\<close>

text \<open>
  Entered at \<open>n\<close>, the loop returns the first channel count from \<open>n\<close> on whose loss
  probability is at most \<open>Pr\<close>, or \<open>max_channels\<close> when there is none up to it.
\<close>

lemma erlang_b_inverse_loop_first:
  "0 \<le> A \<Longrightarrow> 0 \<le> n \<Longrightarrow>
    \<exists>r. erlang_b_inverse_loop n mx A Pr = Inr r \<and>
      ((n \<le> r \<and> r \<le> mx \<and> blocking r A \<le> Pr \<and>
          (\<forall>m. n \<le> m \<and> m < r \<longrightarrow> \<not> blocking m A \<le> Pr)) \<or>
       (r = mx \<and> (\<forall>m. n \<le> m \<and> m \<le> mx \<longrightarrow> \<not> blocking m A \<le> Pr)))"
proof (induction n mx A Pr rule: erlang_b_inverse_loop.induct)
  case (1 N max_channels A Pr)
  have A: "0 \<le> A" by (rule "1.prems"(1))
  have N: "0 \<le> N" by (rule "1.prems"(2))
  have eb: "erlang_b N A = Inr (blocking N A)" by (rule erlang_b_blocking [OF N A])
  show ?case
  proof (cases "N \<le> max_channels")
    case False
    have "erlang_b_inverse_loop N max_channels A Pr = Inr max_channels"
      using False by (subst erlang_b_inverse_loop.simps) simp
    moreover have "\<forall>m. N \<le> m \<and> m \<le> max_channels \<longrightarrow> \<not> blocking m A \<le> Pr"
      using False by simp
    ultimately show ?thesis by blast
  next
    case le: True
    show ?thesis
    proof (cases "blocking N A \<le> Pr")
      case True
      have "erlang_b_inverse_loop N max_channels A Pr = Inr N"
        using le eb True by (subst erlang_b_inverse_loop.simps) simp
      moreover have "N \<le> N \<and> N \<le> max_channels \<and> blocking N A \<le> Pr \<and>
          (\<forall>m. N \<le> m \<and> m < N \<longrightarrow> \<not> blocking m A \<le> Pr)"
        using le True by simp
      ultimately show ?thesis by blast
    next
      case False
      have step: "erlang_b_inverse_loop N max_channels A Pr
          = erlang_b_inverse_loop (N + 1) max_channels A Pr"
        using le eb False by (subst erlang_b_inverse_loop.simps) simp
      have N1: "0 \<le> N + 1" using N by simp
      have first: "\<not> blocking m A \<le> Pr" if "N \<le> m" "\<not> N + 1 \<le> m" for m
      proof -
        from that have "m = N" by simp
        with False show ?thesis by simp
      qed
      from "1.IH" [OF le eb False A N1]
      obtain r where r: "erlang_b_inverse_loop (N + 1) max_channels A Pr = Inr r"
        and rest: "(N + 1 \<le> r \<and> r \<le> max_channels \<and> blocking r A \<le> Pr \<and>
             (\<forall>m. N + 1 \<le> m \<and> m < r \<longrightarrow> \<not> blocking m A \<le> Pr)) \<or>
          (r = max_channels \<and>
             (\<forall>m. N + 1 \<le> m \<and> m \<le> max_channels \<longrightarrow> \<not> blocking m A \<le> Pr))"
        by blast
      from rest have "(N \<le> r \<and> r \<le> max_channels \<and> blocking r A \<le> Pr \<and>
             (\<forall>m. N \<le> m \<and> m < r \<longrightarrow> \<not> blocking m A \<le> Pr)) \<or>
          (r = max_channels \<and>
             (\<forall>m. N \<le> m \<and> m \<le> max_channels \<longrightarrow> \<not> blocking m A \<le> Pr))"
      proof
        assume a: "N + 1 \<le> r \<and> r \<le> max_channels \<and> blocking r A \<le> Pr \<and>
             (\<forall>m. N + 1 \<le> m \<and> m < r \<longrightarrow> \<not> blocking m A \<le> Pr)"
        then have "N \<le> r" by simp
        moreover have "\<forall>m. N \<le> m \<and> m < r \<longrightarrow> \<not> blocking m A \<le> Pr"
          using a first by blast
        ultimately show ?thesis using a by blast
      next
        assume a: "r = max_channels \<and>
             (\<forall>m. N + 1 \<le> m \<and> m \<le> max_channels \<longrightarrow> \<not> blocking m A \<le> Pr)"
        then have "\<forall>m. N \<le> m \<and> m \<le> max_channels \<longrightarrow> \<not> blocking m A \<le> Pr"
          using first by blast
        with a show ?thesis by blast
      qed
      with r show ?thesis unfolding step by blast
    qed
  qed
qed

section \<open>The loops of \<open>erlang_a_from_pr\<close>\<close>

text \<open>
  Entered at \<open>high \<ge> 1\<close>, the bracketing loop ends: each round adds at least 1 to
  \<open>high\<close>, which cannot stay below \<open>max_A\<close>. It raises nothing, and it stops either on
  a loss probability that has reached \<open>Pr\<close> or at the cap.
\<close>

lemma ceiling_doubling:
  fixes high max_A :: real
  assumes "1 \<le> high" "high < max_A"
  shows "nat \<lceil>max_A - high * 2\<rceil> < nat \<lceil>max_A - high\<rceil>"
proof -
  have "max_A - high * 2 \<le> (max_A - high) - 1" using assms(1) by simp
  then have "\<lceil>max_A - high * 2\<rceil> \<le> \<lceil>(max_A - high) - 1\<rceil>" by (rule ceiling_mono)
  then have le: "\<lceil>max_A - high * 2\<rceil> \<le> \<lceil>max_A - high\<rceil> - 1" by simp
  have "0 < \<lceil>max_A - high\<rceil>" using assms(2) by simp
  with le show ?thesis by linarith
qed

lemma bracket_loop_ends:
  assumes N: "0 \<le> N"
  shows "1 \<le> high \<Longrightarrow>
    \<exists>h. bracket_loop N Pr max_A high = Some (Inr h) \<and> high \<le> h \<and>
      (\<not> blocking N h < Pr \<or> \<not> h < max_A) \<and> (h = high \<or> h < 2 * max_A)"
proof (induction "nat \<lceil>max_A - high\<rceil>" arbitrary: high rule: less_induct)
  case less
  have high: "1 \<le> high" by (rule less.prems)
  then have eb: "erlang_b N high = Inr (blocking N high)"
    using N by (intro erlang_b_blocking) simp_all
  show ?case
  proof (cases "blocking N high < Pr \<and> high < max_A")
    case False
    have "bracket_loop N Pr max_A high = Some (Inr high)"
      using False by (subst bracket_loop.simps) (auto simp: eb)
    with False show ?thesis by blast
  next
    case True
    have step: "bracket_loop N Pr max_A high = bracket_loop N Pr max_A (high * 2)"
      using eb True by (subst bracket_loop.simps) simp
    have dec: "nat \<lceil>max_A - high * 2\<rceil> < nat \<lceil>max_A - high\<rceil>"
      using high True by (intro ceiling_doubling) simp_all
    have high2: "1 \<le> high * 2" using high by simp
    from less.hyps [OF dec high2]
    obtain h where h: "bracket_loop N Pr max_A (high * 2) = Some (Inr h)"
      and lo: "high * 2 \<le> h"
      and ex: "\<not> blocking N h < Pr \<or> \<not> h < max_A"
      and up: "h = high * 2 \<or> h < 2 * max_A"
      by blast
    have "high \<le> h" using lo high by simp
    moreover have "h < 2 * max_A" using up True by auto
    ultimately show ?thesis using h ex unfolding step by blast
  qed
qed

lemma bisect_returns:
  assumes N: "0 \<le> N"
  shows "0 \<le> low \<Longrightarrow> low \<le> high \<Longrightarrow>
    \<exists>a. bisect n N Pr tol low high = Inr a \<and> low \<le> a \<and> a \<le> high"
proof (induction n arbitrary: low high)
  case 0
  then show ?case by (intro exI [of _ "(low + high) / 2"]) simp
next
  case (Suc n)
  let ?mid = "(low + high) / 2"
  have mid: "low \<le> ?mid" "?mid \<le> high" "0 \<le> ?mid" using Suc.prems by simp_all
  have eb: "erlang_b N ?mid = Inr (blocking N ?mid)"
    using N mid(3) by (rule erlang_b_blocking)
  show ?case
  proof (cases "\<bar>blocking N ?mid - Pr\<bar> \<le> tol")
    case True
    then have "bisect (Suc n) N Pr tol low high = Inr ?mid" using eb by (simp add: Let_def)
    with mid show ?thesis by blast
  next
    case far: False
    show ?thesis
    proof (cases "blocking N ?mid < Pr")
      case True
      then have step: "bisect (Suc n) N Pr tol low high = bisect n N Pr tol ?mid high"
        using eb far by (simp add: Let_def)
      from Suc.IH [OF mid(3) mid(2)]
      obtain a where "bisect n N Pr tol ?mid high = Inr a" "?mid \<le> a" "a \<le> high" by blast
      then show ?thesis using mid(1) unfolding step by (intro exI [of _ a]) simp
    next
      case False
      then have step: "bisect (Suc n) N Pr tol low high = bisect n N Pr tol low ?mid"
        using eb far by (simp add: Let_def)
      from Suc.IH [OF Suc.prems(1) mid(1)]
      obtain a where "bisect n N Pr tol low ?mid = Inr a" "low \<le> a" "a \<le> ?mid" by blast
      then show ?thesis using mid(2) unfolding step by (intro exI [of _ a]) simp
    qed
  qed
qed

lemma erlang_a_from_pr_returns:
  assumes "1 \<le> N" "0 < Pr" "Pr < 1"
  shows "\<exists>a. erlang_a_from_pr N Pr tol max_iter max_A = Some (Inr (Finite a)) \<and>
           (a = max_A \<or> 0 \<le> a)"
proof -
  have N: "0 \<le> N" using assms(1) by simp
  from bracket_loop_ends [OF N, of 1 Pr max_A]
  obtain h where h: "bracket_loop N Pr max_A 1 = Some (Inr h)" and h1: "1 \<le> h" by auto
  have eb: "erlang_b N h = Inr (blocking N h)" using N h1 by (intro erlang_b_blocking) simp_all
  show ?thesis
  proof (cases "blocking N h < Pr")
    case True
    then have "erlang_a_from_pr N Pr tol max_iter max_A = Some (Inr (Finite max_A))"
      using assms h eb by (simp add: erlang_a_from_pr_def)
    then show ?thesis by blast
  next
    case False
    from bisect_returns [OF N, of 0 h "nat max_iter" Pr tol] h1
    obtain a where a: "bisect (nat max_iter) N Pr tol 0 h = Inr a" "0 \<le> a" by auto
    have "erlang_a_from_pr N Pr tol max_iter max_A = Some (Inr (Finite a))"
      using assms h eb False a by (simp add: erlang_a_from_pr_def)
    with a show ?thesis by blast
  qed
qed

section \<open>The bisection of \<open>erlang_a_from_pr\<close>\<close>


lemma blocking_closed:
  "1 \<le> N \<Longrightarrow> \<not> term_overflow A (nat N) \<Longrightarrow> blocking N A = erlang_closed (nat N) A"
  by (simp add: blocking_def)











section \<open>The rounding error of \<open>erlang_b\<close>\<close>













lemma enclosed_nonneg: "enclosed m a x xh \<Longrightarrow> 0 \<le> xh"
  by (simp add: enclosed_def)

































section \<open>The closed form\<close>

text \<open>
  C1: for every \<open>N \<ge> 1\<close> and \<open>A \<ge> 0\<close> for which the direct evaluation does not
  overflow (the \<^verbatim>\<open>try\<close> block does not raise \<^verbatim>\<open>OverflowError\<close>), \<open>erlang_b N A\<close>
  returns the Erlang B closed form \<open>(A^N / N!) / \<Sum>_{k=0..N} (A^k / k!)\<close>.
\<close>

theorem erlang_b_closed_form:
  assumes "1 \<le> N" and "0 \<le> A" and "erlang_b_try N A \<noteq> Inl OverflowError"
  shows "erlang_b N A = Inr (erlang_closed (nat N) A)"
proof -
  have N: "0 \<le> N" using assms(1) by simp
  have "\<not> term_overflow A (nat N)"
    using assms(3) erlang_b_try_overflow_iff [OF N assms(2)] by simp
  then show ?thesis
    using assms(1) by (simp add: erlang_b_blocking [OF N assms(2)] blocking_def)
qed

theorem erlang_b_closed_form_witness:
  "erlang_b 2 3 = Inr (erlang_closed (nat 2) 3) \<and> erlang_closed (nat 2) 3 = 9 / 17"
proof -
  have "erlang_b_try 2 3 \<noteq> Inl OverflowError"
    using erlang_b_try_overflow_iff [of 2 3] no_overflow_3_2 by simp
  then have "erlang_b 2 3 = Inr (erlang_closed (nat 2) 3)"
    using erlang_b_closed_form [of 2 3] by simp
  moreover have "erlang_closed (nat 2) 3 = 9 / 17"
    by (simp add: erlang_closed_def numeral_2_eq_2 fact_numeral)
  ultimately show ?thesis by simp
qed

section \<open>No exception leaves \<open>erlang_b\<close>\<close>

text \<open>
  C4: for every \<open>N \<ge> 0\<close> and \<open>A \<ge> 0\<close>, \<open>erlang_b N A\<close> returns a value and raises
  nothing; whenever the \<^verbatim>\<open>try\<close> block fails, the value returned is the sentinel 1.
\<close>

theorem erlang_b_never_raises:
  assumes "0 \<le> N" and "0 \<le> A"
  shows "(\<exists>p. erlang_b N A = Inr p) \<and>
         (\<forall>e. N \<noteq> 0 \<and> erlang_b_try N A = Inl e \<longrightarrow> erlang_b N A = Inr 1)"
proof -
  have "erlang_b N A = Inr (blocking N A)" by (rule erlang_b_blocking [OF assms])
  moreover have "erlang_b N A = Inr 1" if "N \<noteq> 0" "erlang_b_try N A = Inl e" for e
    using that by (auto simp: erlang_b_def erlang_b_try_nonneg [OF assms] split: if_splits)
  ultimately show ?thesis by blast
qed

theorem erlang_b_never_raises_witness:
  "erlang_b_try 171 5 = Inl OverflowError \<and> erlang_b 171 5 = Inr 1"
proof -
  have t: "erlang_b_try 171 5 = Inl OverflowError"
    using erlang_b_try_overflow_iff [of 171 5] overflow_5_171 by simp
  with erlang_b_never_raises [of 171 5] show ?thesis by simp
qed

section \<open>The result is a probability\<close>



section \<open>Monotonicity\<close>




section \<open>The degenerate case of no channel\<close>

text \<open>
  C6: \<^verbatim>\<open>erlang_b(0, A)\<close> returns 1.0 for every \<open>A > 0\<close> and 0.0 for \<open>A = 0\<close>.
\<close>

theorem erlang_b_zero_channels:
  "erlang_b 0 A = Inr (if A > 0 then 1 else 0)"
  by (simp add: erlang_b_def)

section \<open>The minimal number of channels\<close>

text \<open>
  C3: for every \<open>A > 0\<close> and \<open>0 < Pr < 1\<close>, \<open>erlang_b_inverse A Pr max_channels\<close> returns
  the smallest \<open>N\<close> in \<open>1..max_channels\<close> such that \<open>erlang_b N A \<le> Pr\<close>, and returns
  \<open>max_channels\<close> when no such \<open>N\<close> exists in that range.
\<close>

theorem erlang_b_inverse_smallest:
  assumes "0 < A" and "0 < Pr" and "Pr < 1"
  shows "\<exists>r. erlang_b_inverse A Pr mx = Inr r \<and>
     (if \<exists>n\<in>{1..mx}. meets_target n A Pr
      then r \<in> {1..mx} \<and> meets_target r A Pr \<and> (\<forall>n\<in>{1..<r}. \<not> meets_target n A Pr)
      else r = mx)"
proof -
  have A: "0 \<le> A" using assms(1) by simp
  have mt: "meets_target n A Pr \<longleftrightarrow> blocking n A \<le> Pr" if "1 \<le> n" for n
    using that A by (intro meets_target_blocking) simp_all
  have call: "erlang_b_inverse A Pr mx = erlang_b_inverse_loop 1 mx A Pr"
    using assms by (simp add: erlang_b_inverse_def)
  from erlang_b_inverse_loop_first [OF A, of 1 mx Pr]
  obtain r where r: "erlang_b_inverse_loop 1 mx A Pr = Inr r"
    and rest: "(1 \<le> r \<and> r \<le> mx \<and> blocking r A \<le> Pr \<and>
          (\<forall>m. 1 \<le> m \<and> m < r \<longrightarrow> \<not> blocking m A \<le> Pr)) \<or>
       (r = mx \<and> (\<forall>m. 1 \<le> m \<and> m \<le> mx \<longrightarrow> \<not> blocking m A \<le> Pr))"
    by auto
  from rest have "if \<exists>n\<in>{1..mx}. meets_target n A Pr
      then r \<in> {1..mx} \<and> meets_target r A Pr \<and> (\<forall>n\<in>{1..<r}. \<not> meets_target n A Pr)
      else r = mx"
  proof
    assume a: "1 \<le> r \<and> r \<le> mx \<and> blocking r A \<le> Pr \<and>
          (\<forall>m. 1 \<le> m \<and> m < r \<longrightarrow> \<not> blocking m A \<le> Pr)"
    then have "meets_target r A Pr" using mt [of r] by simp
    moreover have "\<forall>n\<in>{1..<r}. \<not> meets_target n A Pr" using a mt by auto
    moreover have "r \<in> {1..mx}" using a by simp
    ultimately show ?thesis by auto
  next
    assume a: "r = mx \<and> (\<forall>m. 1 \<le> m \<and> m \<le> mx \<longrightarrow> \<not> blocking m A \<le> Pr)"
    then have "\<not> (\<exists>n\<in>{1..mx}. meets_target n A Pr)" using mt by auto
    with a show ?thesis by simp
  qed
  with r call show ?thesis by simp
qed

theorem erlang_b_inverse_smallest_witness:
  "erlang_b_inverse 1 (1 / 2) 5 = Inr 1 \<and> erlang_b_inverse 5 (1 / 100) 3 = Inr 3"
proof -
  have m1: "meets_target 1 1 (1 / 2)"
    using meets_target_blocking [of 1 1 "1 / 2"] blocking_1_1 by simp
  then have ex: "\<exists>n\<in>{1..5::int}. meets_target n 1 (1 / 2)" by (intro bexI [of _ 1]) simp_all
  from erlang_b_inverse_smallest [of 1 "1 / 2" 5]
  obtain r where r: "erlang_b_inverse 1 (1 / 2) 5 = Inr r"
    and rest: "if \<exists>n\<in>{1..5}. meets_target n 1 (1 / 2)
      then r \<in> {1..5} \<and> meets_target r 1 (1 / 2) \<and> (\<forall>n\<in>{1..<r}. \<not> meets_target n 1 (1 / 2))
      else r = 5"
    by auto
  from rest ex have lo: "1 \<le> r" and none: "\<forall>n\<in>{1..<r}. \<not> meets_target n 1 (1 / 2)"
    by simp_all
  have "r = 1"
  proof (rule ccontr)
    assume "r \<noteq> 1"
    with lo have "1 \<in> {1..<r}" by simp
    with none m1 show False by blast
  qed
  with r have first: "erlang_b_inverse 1 (1 / 2) 5 = Inr 1" by simp
  have no: "\<not> (\<exists>n\<in>{1..3::int}. meets_target n 5 (1 / 100))"
  proof
    assume "\<exists>n\<in>{1..3::int}. meets_target n 5 (1 / 100)"
    then obtain n :: int where n: "1 \<le> n" "n \<le> 3" "meets_target n 5 (1 / 100)" by auto
    then have "blocking n 5 \<le> 1 / 100" using meets_target_blocking [of n 5 "1 / 100"] by simp
    moreover have "1 / 100 < blocking n 5" using n by (intro blocking_5_above) simp_all
    ultimately show False by simp
  qed
  from erlang_b_inverse_smallest [of 5 "1 / 100" 3] no
  have "erlang_b_inverse 5 (1 / 100) 3 = Inr 3" by auto
  with first show ?thesis by simp
qed

text \<open>
  C8: for the traffic \<open>A = 5\<close> and the target \<open>Pr = 0.01\<close>, with the default of 1000
  channels at most, the scan returns exactly 11.
\<close>

theorem MinimumServers_5_percent:
  "MinimumServers 5 (1 / 100) = Inr 11"
proof -
  have call: "MinimumServers 5 (1 / 100) = erlang_b_inverse_loop 1 1000 5 (1 / 100)"
    by (simp add: MinimumServers_def erlang_b_inverse_def)
  from erlang_b_inverse_loop_first [of 5 1 1000 "1 / 100"]
  obtain r where r: "erlang_b_inverse_loop 1 1000 5 (1 / 100) = Inr r"
    and rest: "(1 \<le> r \<and> r \<le> 1000 \<and> blocking r 5 \<le> 1 / 100 \<and>
          (\<forall>m. 1 \<le> m \<and> m < r \<longrightarrow> \<not> blocking m 5 \<le> 1 / 100)) \<or>
       (r = 1000 \<and> (\<forall>m. 1 \<le> m \<and> m \<le> 1000 \<longrightarrow> \<not> blocking m 5 \<le> 1 / 100))"
    by auto
  have "\<not> (\<forall>m::int. 1 \<le> m \<and> m \<le> 1000 \<longrightarrow> \<not> blocking m 5 \<le> 1 / 100)"
    using blocking_5_11 by (intro notI) (drule spec [of _ 11], simp)
  with rest have lo: "1 \<le> r" and hit: "blocking r 5 \<le> 1 / 100"
    and none: "\<forall>m. 1 \<le> m \<and> m < r \<longrightarrow> \<not> blocking m 5 \<le> 1 / 100"
    by blast+
  have "\<not> 11 < r" using none blocking_5_11 by (intro notI) (drule spec [of _ 11], simp)
  moreover have "\<not> r \<le> 10"
  proof
    assume "r \<le> 10"
    with lo have "1 / 100 < blocking r 5" by (intro blocking_5_above)
    with hit show False by simp
  qed
  ultimately have "r = 11" by simp
  with r call show ?thesis by simp
qed

section \<open>The traffic inversion\<close>

text \<open>
  C10: for every \<open>N \<ge> 1\<close> and \<open>0 < Pr < 1\<close>, \<open>OfferedTraffic N Pr\<close> terminates, raises
  nothing and returns a finite non-negative value; the bracketing loop itself returns a
  bound and no exception, so the handler around it that returns \<open>max_A\<close> is never
  entered.
\<close>

theorem OfferedTraffic_returns:
  assumes "1 \<le> N" and "0 < Pr" and "Pr < 1"
  shows "(\<exists>a. OfferedTraffic N Pr = Some (Inr (Finite a)) \<and> 0 \<le> a) \<and>
         (\<exists>h. bracket_loop N Pr (10 ^ 6) 1 = Some (Inr h))"
proof
  from erlang_a_from_pr_returns [OF assms, of "1 / 10 ^ 9" 100 "10 ^ 6"]
  obtain a where a: "erlang_a_from_pr N Pr (1 / 10 ^ 9) 100 (10 ^ 6) = Some (Inr (Finite a))"
    and "a = 10 ^ 6 \<or> 0 \<le> a"
    by blast
  then have "0 \<le> a" by auto
  with a show "\<exists>a. OfferedTraffic N Pr = Some (Inr (Finite a)) \<and> 0 \<le> a"
    by (simp add: OfferedTraffic_def)
next
  have "0 \<le> N" using assms(1) by simp
  from bracket_loop_ends [OF this, of 1 Pr "10 ^ 6"]
  show "\<exists>h. bracket_loop N Pr (10 ^ 6) 1 = Some (Inr h)" by auto
qed

theorem OfferedTraffic_returns_witness:
  "(\<exists>a. OfferedTraffic 5 (1 / 50) = Some (Inr (Finite a)) \<and> 0 \<le> a) \<and>
   (\<exists>h. bracket_loop 5 (1 / 50) (10 ^ 6) 1 = Some (Inr h))"
  using OfferedTraffic_returns [of 5 "1 / 50"] by simp

text \<open>
  C5: \<open>erlang_a_from_pr\<close> raises an error if and only if \<open>N \<le> 0\<close>, and the error is
  then the invalid-argument \<^verbatim>\<open>ValueError\<close>; for \<open>N \<ge> 1\<close> it returns 0 when \<open>Pr \<le> 0\<close>
  and the infinity sentinel when \<open>Pr \<ge> 1\<close>.
\<close>

theorem erlang_a_from_pr_boundary:
  "((\<exists>e. erlang_a_from_pr N Pr tol max_iter max_A = Some (Inl e)) \<longleftrightarrow> N \<le> 0) \<and>
   (N \<le> 0 \<longrightarrow> erlang_a_from_pr N Pr tol max_iter max_A = Some (Inl ValueError)) \<and>
   (1 \<le> N \<and> Pr \<le> 0 \<longrightarrow> erlang_a_from_pr N Pr tol max_iter max_A = Some (Inr (Finite 0))) \<and>
   (1 \<le> N \<and> 1 \<le> Pr \<longrightarrow> erlang_a_from_pr N Pr tol max_iter max_A = Some (Inr Infinity))"
proof -
  have raise: "erlang_a_from_pr N Pr tol max_iter max_A = Some (Inl ValueError)" if "N \<le> 0"
    using that by (simp add: erlang_a_from_pr_def)
  have zero: "erlang_a_from_pr N Pr tol max_iter max_A = Some (Inr (Finite 0))"
    if "1 \<le> N" "Pr \<le> 0"
    using that by (simp add: erlang_a_from_pr_def)
  have inf: "erlang_a_from_pr N Pr tol max_iter max_A = Some (Inr Infinity)"
    if "1 \<le> N" "1 \<le> Pr"
    using that by (simp add: erlang_a_from_pr_def)
  have none: "erlang_a_from_pr N Pr tol max_iter max_A \<noteq> Some (Inl e)" if "1 \<le> N" for e
  proof (cases "Pr \<le> 0")
    case True
    then show ?thesis using zero [OF that] by simp
  next
    case pos: False
    show ?thesis
    proof (cases "1 \<le> Pr")
      case True
      then show ?thesis using inf [OF that] by simp
    next
      case False
      with pos have "0 < Pr" "Pr < 1" by simp_all
      from erlang_a_from_pr_returns [OF that this, of tol max_iter max_A]
      show ?thesis by auto
    qed
  qed
  have "(\<exists>e. erlang_a_from_pr N Pr tol max_iter max_A = Some (Inl e)) \<longleftrightarrow> N \<le> 0"
  proof
    assume "\<exists>e. erlang_a_from_pr N Pr tol max_iter max_A = Some (Inl e)"
    then show "N \<le> 0" using none by (cases "1 \<le> N") auto
  next
    assume "N \<le> 0"
    then show "\<exists>e. erlang_a_from_pr N Pr tol max_iter max_A = Some (Inl e)"
      using raise by blast
  qed
  then show ?thesis using raise zero inf by blast
qed

theorem erlang_a_from_pr_boundary_witness:
  "OfferedTraffic 0 (1 / 2) = Some (Inl ValueError) \<and>
   OfferedTraffic 5 0 = Some (Inr (Finite 0)) \<and>
   OfferedTraffic 5 1 = Some (Inr Infinity) \<and>
   (\<forall>e. OfferedTraffic 5 (1 / 50) \<noteq> Some (Inl e))"
  using erlang_a_from_pr_boundary [of 0 "1 / 2" "1 / 10 ^ 9" 100 "10 ^ 6"]
    erlang_a_from_pr_boundary [of 5 0 "1 / 10 ^ 9" 100 "10 ^ 6"]
    erlang_a_from_pr_boundary [of 5 1 "1 / 10 ^ 9" 100 "10 ^ 6"]
    erlang_a_from_pr_boundary [of 5 "1 / 50" "1 / 10 ^ 9" 100 "10 ^ 6"]
  by (simp add: OfferedTraffic_def)

section \<open>The round trip through the traffic inversion\<close>




end
